theory Spec2Isabelle
  imports Main "HOL-Library.Monad_Syntax"
begin

section \<open>Errors and panics of the log driver\<close>

text \<open>
  The driver (\<^verbatim>\<open>src/logger.go\<close>) reports failures in two ways: as Go \<^verbatim>\<open>error\<close> values that a
  call returns, and as run-time panics.  Both are values of the model.
\<close>

datatype error =
    errUnknownTag string
  | errLoggerClosed
  | errEnqueueFailed
  | errTemplate

datatype panic =
    LogMustBePartial
  | SendOnClosedChannel
  | SliceBoundsOutOfRange
  | UnexpectedTagError error

section \<open>Log records and the partial log buffer\<close>

text \<open>
  \<^verbatim>\<open>logger.Message\<close> and its \<^verbatim>\<open>PLogMetaData\<close> come from the Docker daemon packages; the fields
  below are the ones the driver reads or copies.  A nil \<^verbatim>\<open>PLogMetaData\<close> pointer is \<open>None\<close>.
  The only use the driver makes of \<^verbatim>\<open>Timestamp\<close> is to print it with
  \<^verbatim>\<open>Timestamp.UTC().Format(time.RFC3339)\<close>; the field holds the instant as that text.
\<close>

record PartialLogMetaData =
  Last :: bool
  ID :: string
  Ordinal :: int

record Message =
  Line :: string
  Source :: string
  Timestamp :: string
  Attrs :: "(string \<times> string) list"
  PLogMetaData :: "PartialLogMetaData option"

text \<open>
  \<^verbatim>\<open>partialLogBuffer.logs\<close> maps a group ID to the record under assembly.  The Go map holds
  pointers and \<^verbatim>\<open>Append\<close> mutates the record it points to, so the entry of the map always
  shows the payload appended so far; the model stores the updated record back.
\<close>

type_synonym partialLogBuffer = "string \<rightharpoonup> Message"

definition newPartialLogBuffer :: partialLogBuffer where
  "newPartialLogBuffer = Map.empty"

definition Append ::
  "partialLogBuffer \<Rightarrow> Message \<Rightarrow> panic + ((Message option \<times> bool) \<times> partialLogBuffer)" where
  "Append logs log =
     (case PLogMetaData log of
        None \<Rightarrow> Inl LogMustBePartial
      | Some meta \<Rightarrow>
          (let plog0 = (case logs (ID meta) of
                          Some p \<Rightarrow> p
                        | None \<Rightarrow> log\<lparr>Line := [], PLogMetaData := None\<rparr>);
               plog = plog0\<lparr>Line := Line plog0 @ Line log\<rparr>;
               logs1 = logs(ID meta \<mapsto> plog)
           in if Last meta
              then Inr ((Some plog, True), logs1(ID meta := None))
              else Inr ((None, False), logs1)))"

text \<open>Submitting a list of records one after the other, collecting what each call returns.\<close>

fun Append_seq ::
  "partialLogBuffer \<Rightarrow> Message list \<Rightarrow> panic + ((Message option \<times> bool) list \<times> partialLogBuffer)" where
  "Append_seq logs [] = Inr ([], logs)"
| "Append_seq logs (m # ms) =
     (case Append logs m of
        Inl p \<Rightarrow> Inl p
      | Inr (r, logs') \<Rightarrow>
          (case Append_seq logs' ms of
             Inl p \<Rightarrow> Inl p
           | Inr (rs, logs'') \<Rightarrow> Inr (r # rs, logs'')))"

definition fragment_of :: "string \<Rightarrow> bool \<Rightarrow> Message \<Rightarrow> bool" where
  "fragment_of gid lst m =
     (case PLogMetaData m of None \<Rightarrow> False | Some meta \<Rightarrow> ID meta = gid \<and> Last meta = lst)"

section \<open>Go strings, runes and UTF-8\<close>

text \<open>
  A Go \<^verbatim>\<open>string\<close> is a sequence of bytes, here a \<^typ>\<open>string\<close> (a list of 8-bit characters); a
  \<^verbatim>\<open>rune\<close> is an integer.  \<^verbatim>\<open>Log\<close> counts runes with \<^verbatim>\<open>utf8.RuneCountInString\<close>, converts with
  \<^verbatim>\<open>[]rune(text)\<close> and converts back with \<^verbatim>\<open>string(runes[:end])\<close>.  These are operations of the
  Go language and of its package \<^verbatim>\<open>unicode/utf8\<close>; the definitions below follow
  \<^verbatim>\<open>utf8.DecodeRuneInString\<close> and \<^verbatim>\<open>utf8.EncodeRune\<close>, with the masks and shifts written as
  \<open>mod\<close>, \<open>div\<close> and multiplication on the byte values.
\<close>

type_synonym rune = int

definition RuneError :: rune where
  "RuneError = 0xFFFD"

definition locb :: nat where "locb = 0x80"
definition hicb :: nat where "hicb = 0xBF"

text \<open>
  The table \<^verbatim>\<open>first\<close> of \<^verbatim>\<open>unicode/utf8\<close> for a leading byte that is not ASCII: the length of
  the sequence and the range accepted for its second byte, or \<open>None\<close> for a byte that cannot
  start a sequence.
\<close>

definition first :: "nat \<Rightarrow> (nat \<times> nat \<times> nat) option" where
  "first s0 =
     (if 0xC2 \<le> s0 \<and> s0 \<le> 0xDF then Some (2, locb, hicb)
      else if s0 = 0xE0 then Some (3, 0xA0, hicb)
      else if 0xE1 \<le> s0 \<and> s0 \<le> 0xEC then Some (3, locb, hicb)
      else if s0 = 0xED then Some (3, locb, 0x9F)
      else if 0xEE \<le> s0 \<and> s0 \<le> 0xEF then Some (3, locb, hicb)
      else if s0 = 0xF0 then Some (4, 0x90, hicb)
      else if 0xF1 \<le> s0 \<and> s0 \<le> 0xF3 then Some (4, locb, hicb)
      else if s0 = 0xF4 then Some (4, locb, 0x8F)
      else None)"

text \<open>\<^verbatim>\<open>DecodeRuneInString\<close>: the first rune of the string and its width in bytes.\<close>

definition DecodeRuneInString :: "string \<Rightarrow> rune \<times> nat" where
  "DecodeRuneInString s =
     (case s of
        [] \<Rightarrow> (RuneError, 0)
      | c0 # _ \<Rightarrow>
          (let s0 = (of_char c0 :: nat) in
           if s0 < 0x80 then (int s0, 1)
           else
             (case first s0 of
                None \<Rightarrow> (RuneError, 1)
              | Some (sz, lo, hi) \<Rightarrow>
                  if length s < sz then (RuneError, 1)
                  else
                    (let s1 = (of_char (s ! 1) :: nat) in
                     if s1 < lo \<or> hi < s1 then (RuneError, 1)
                     else if sz \<le> 2 then (int (s0 mod 32 * 64 + s1 mod 64), 2)
                     else
                       (let s2 = (of_char (s ! 2) :: nat) in
                        if s2 < locb \<or> hicb < s2 then (RuneError, 1)
                        else if sz \<le> 3
                        then (int (s0 mod 16 * 4096 + s1 mod 64 * 64 + s2 mod 64), 3)
                        else
                          (let s3 = (of_char (s ! 3) :: nat) in
                           if s3 < locb \<or> hicb < s3 then (RuneError, 1)
                           else (int (s0 mod 8 * 262144 + s1 mod 64 * 4096
                                        + s2 mod 64 * 64 + s3 mod 64), 4)))))))"

text \<open>
  \<^verbatim>\<open>[]rune(s)\<close>: the runes of a string, one \<^verbatim>\<open>RuneError\<close> for every byte that does not start
  a valid sequence.
\<close>

fun stringtoslicerune :: "string \<Rightarrow> rune list" where
  "stringtoslicerune [] = []"
| "stringtoslicerune (c # s) =
     fst (DecodeRuneInString (c # s))
       # stringtoslicerune (drop (snd (DecodeRuneInString (c # s)) - 1) s)"

definition RuneCountInString :: "string \<Rightarrow> int" where
  "RuneCountInString s = int (length (stringtoslicerune s))"

text \<open>
  \<^verbatim>\<open>utf8.EncodeRune\<close>, which \<^verbatim>\<open>string(runes)\<close> applies to each rune: a rune that is negative,
  above \<^verbatim>\<open>MaxRune\<close> or a surrogate is written as \<^verbatim>\<open>RuneError\<close>.
\<close>

text \<open>\<^verbatim>\<open>utf8.ValidRune\<close>: the runes that \<^verbatim>\<open>EncodeRune\<close> writes as they are.\<close>

definition ValidRune :: "rune \<Rightarrow> bool" where
  "ValidRune r \<longleftrightarrow> 0 \<le> r \<and> r \<le> 0x10FFFF \<and> \<not> (0xD800 \<le> r \<and> r \<le> 0xDFFF)"

definition encode3 :: "nat \<Rightarrow> string" where
  "encode3 i = [char_of (0xE0 + i div 4096), char_of (0x80 + i div 64 mod 64),
                char_of (0x80 + i mod 64)]"

definition encoderune :: "rune \<Rightarrow> string" where
  "encoderune r =
     (if r < 0 then encode3 0xFFFD
      else
        (let i = nat r in
         if i \<le> 0x7F then [char_of i]
         else if i \<le> 0x7FF then [char_of (0xC0 + i div 64), char_of (0x80 + i mod 64)]
         else if i > 0x10FFFF \<or> (0xD800 \<le> i \<and> i \<le> 0xDFFF) then encode3 0xFFFD
         else if i \<le> 0xFFFF then encode3 i
         else [char_of (0xF0 + i div 262144), char_of (0x80 + i div 4096 mod 64),
               char_of (0x80 + i div 64 mod 64), char_of (0x80 + i mod 64)]))"

definition slicerunetostring :: "rune list \<Rightarrow> string" where
  "slicerunetostring rs = concat (map encoderune rs)"

text \<open>\<^verbatim>\<open>utf8.ValidString\<close>: no byte of the string decodes to an encoding error.\<close>

fun ValidString :: "string \<Rightarrow> bool" where
  "ValidString [] = True"
| "ValidString (c # s) =
     (DecodeRuneInString (c # s) \<noteq> (RuneError, 1)
      \<and> ValidString (drop (snd (DecodeRuneInString (c # s)) - 1) s))"

section \<open>The message formatter\<close>

text \<open>
  The formatter renders a record through a \<^verbatim>\<open>fasttemplate\<close> template with the tags \<^verbatim>\<open>{\<close> and
  \<^verbatim>\<open>}\<close>.  The template library is a dependency of the driver, not part of it; the three
  operations the driver calls are written out here as the library performs them.
  \<^verbatim>\<open>NewTemplate\<close> cuts the template at every start tag: \<open>texts\<close> are the pieces of plain text,
  \<open>tags\<close> the names between a start tag and the next end tag; a start tag with no end tag
  after it is an error; a template without a start tag keeps both lists empty.
\<close>

record Template =
  template :: string
  texts :: "string list"
  tags :: "string list"

function Reset :: "string \<Rightarrow> error + (string list \<times> string list)" where
  "Reset s =
     (if CHR ''{'' \<notin> set s then Inr ([s], [])
      else
        (let text = takeWhile (\<lambda>c. c \<noteq> CHR ''{'') s;
             s1 = tl (dropWhile (\<lambda>c. c \<noteq> CHR ''{'') s)
         in if CHR ''}'' \<notin> set s1 then Inl errTemplate
            else
              (let tag = takeWhile (\<lambda>c. c \<noteq> CHR ''}'') s1;
                   s2 = tl (dropWhile (\<lambda>c. c \<noteq> CHR ''}'') s1)
               in case Reset s2 of
                    Inl e \<Rightarrow> Inl e
                  | Inr (ts, gs) \<Rightarrow> Inr (text # ts, tag # gs))))"
  by pat_completeness auto
termination
proof (relation "measure length")
  show "wf (measure length)" by simp
next
  fix s s1 s2 :: string
  assume a: "\<not> CHR ''{'' \<notin> set s"
    and s1: "s1 = tl (dropWhile (\<lambda>c. c \<noteq> CHR ''{'') s)"
    and s2: "s2 = tl (dropWhile (\<lambda>c. c \<noteq> CHR ''}'') s1)"
  have "length s2 \<le> length s1"
    unfolding s2 using length_dropWhile_le [of "\<lambda>c. c \<noteq> CHR ''}''" s1] by simp
  moreover have "dropWhile (\<lambda>c. c \<noteq> CHR ''{'') s \<noteq> []"
    using a by (simp add: dropWhile_eq_Nil_conv)
  then have "length s1 < length s"
    unfolding s1 using length_dropWhile_le [of "\<lambda>c. c \<noteq> CHR ''{''" s]
    by (cases "dropWhile (\<lambda>c. c \<noteq> CHR ''{'') s") simp_all
  ultimately show "(s2, s) \<in> measure length" by simp
qed

definition NewTemplate :: "string \<Rightarrow> error + Template" where
  "NewTemplate s =
     (if CHR ''{'' \<notin> set s then Inr \<lparr>template = s, texts = [], tags = []\<rparr>
      else
        (case Reset s of
           Inl e \<Rightarrow> Inl e
         | Inr (ts, gs) \<Rightarrow> Inr \<lparr>template = s, texts = ts, tags = gs\<rparr>))"

text \<open>
  \<^verbatim>\<open>ExecuteFunc\<close> writes the texts and, between them, what the tag function writes for each
  tag; it stops at the first error of the tag function.  With no texts it writes the
  template itself.  The writer is a byte buffer, whose writes do not fail.
\<close>

fun ExecuteFunc_loop :: "(string \<Rightarrow> error + string) \<Rightarrow> string list \<Rightarrow> string list \<Rightarrow> error + string" where
  "ExecuteFunc_loop f [] gs = Inr []"
| "ExecuteFunc_loop f [t] gs = Inr t"
| "ExecuteFunc_loop f (t # ts) [] = Inr t"
| "ExecuteFunc_loop f (t # ts) (g # gs) =
     (case f g of
        Inl e \<Rightarrow> Inl e
      | Inr v \<Rightarrow>
          (case ExecuteFunc_loop f ts gs of
             Inl e \<Rightarrow> Inl e
           | Inr rest \<Rightarrow> Inr (t @ v @ rest)))"

definition ExecuteFuncStringWithErr :: "Template \<Rightarrow> (string \<Rightarrow> error + string) \<Rightarrow> error + string" where
  "ExecuteFuncStringWithErr t f =
     (if texts t = [] then Inr (template t) else ExecuteFunc_loop f (texts t) (tags t))"

text \<open>\<^verbatim>\<open>ExecuteFuncString\<close> panics where \<^verbatim>\<open>ExecuteFuncStringWithErr\<close> returns an error.\<close>

definition ExecuteFuncString :: "Template \<Rightarrow> (string \<Rightarrow> error + string) \<Rightarrow> panic + string" where
  "ExecuteFuncString t f =
     (case ExecuteFuncStringWithErr t f of
        Inl e \<Rightarrow> Inl (UnexpectedTagError e)
      | Inr s \<Rightarrow> Inr s)"

text \<open>
  \<^verbatim>\<open>ContainerDetails\<close> is declared in a file of the driver that is not at hand.  The formatter
  reads three of its fields and calls four of its methods; the record holds the fields and,
  for each method, the string the method returns.
\<close>

record ContainerDetails =
  ContainerID :: string
  ContainerImageID :: string
  DaemonName :: string
  ID_result :: string
  Name_result :: string
  ImageID_result :: string
  ImageName_result :: string

record messageFormatter =
  fmt_template :: Template
  containerDetails :: ContainerDetails
  attrs :: "string \<rightharpoonup> string"

text \<open>\<^verbatim>\<open>tagFunc\<close>: the value written for a tag, or the unknown-tag error.\<close>

definition tagFunc :: "messageFormatter \<Rightarrow> Message \<Rightarrow> string \<Rightarrow> error + string" where
  "tagFunc f msg tag =
     (if tag = ''log'' then Inr (Line msg)
      else if tag = ''timestamp'' then Inr (Timestamp msg)
      else if tag = ''container_id'' then Inr (ID_result (containerDetails f))
      else if tag = ''container_full_id'' then Inr (ContainerID (containerDetails f))
      else if tag = ''container_name'' then Inr (Name_result (containerDetails f))
      else if tag = ''image_id'' then Inr (ImageID_result (containerDetails f))
      else if tag = ''image_full_id'' then Inr (ContainerImageID (containerDetails f))
      else if tag = ''image_name'' then Inr (ImageName_result (containerDetails f))
      else if tag = ''daemon_name'' then Inr (DaemonName (containerDetails f))
      else
        (case attrs f tag of
           Some v \<Rightarrow> Inr v
         | None \<Rightarrow> Inl (errUnknownTag tag)))"

definition Format :: "messageFormatter \<Rightarrow> Message \<Rightarrow> panic + string" where
  "Format f msg = ExecuteFuncString (fmt_template f) (tagFunc f msg)"

text \<open>\<^verbatim>\<open>validateTemplate\<close>: one run over a synthetic record; \<open>now\<close> is the reading of the clock
  (\<^verbatim>\<open>time.Now()\<close>).\<close>

definition validateTemplate :: "string \<Rightarrow> messageFormatter \<Rightarrow> error option" where
  "validateTemplate now f =
     (let msg = \<lparr>Line = ''validate'', Source = [], Timestamp = now, Attrs = [],
                   PLogMetaData = None\<rparr>
      in case ExecuteFuncStringWithErr (fmt_template f) (tagFunc f msg) of
           Inl e \<Rightarrow> Some e
         | Inr _ \<Rightarrow> None)"

definition newMessageFormatter ::
  "string \<Rightarrow> ContainerDetails \<Rightarrow> (string \<rightharpoonup> string) \<Rightarrow> string \<Rightarrow> error + messageFormatter" where
  "newMessageFormatter now cd as tmpl =
     (case NewTemplate tmpl of
        Inl e \<Rightarrow> Inl e
      | Inr t \<Rightarrow>
          (let formatter = \<lparr>fmt_template = t, containerDetails = cd, attrs = as\<rparr>
           in case validateTemplate now formatter of
                Some e \<Rightarrow> Inl e
              | None \<Rightarrow> Inr formatter))"

text \<open>The tags the formatter resolves by itself.\<close>

definition builtin_tags :: "string list" where
  "builtin_tags = [''log'', ''timestamp'', ''container_id'', ''container_full_id'',
     ''container_name'', ''image_id'', ''image_full_id'', ''image_name'', ''daemon_name'']"

section \<open>The partial log buffer: reassembly\<close>

lemma Append_nonlast:
  "fragment_of gid False m \<Longrightarrow>
   Append logs m = Inr ((None, False),
      logs(gid \<mapsto> (case logs gid of Some p \<Rightarrow> p\<lparr>Line := Line p @ Line m\<rparr>
                       | None \<Rightarrow> m\<lparr>PLogMetaData := None\<rparr>)))"
  by (auto simp: Append_def fragment_of_def Let_def split: option.splits)

lemma Append_last:
  "fragment_of gid True m \<Longrightarrow>
   Append logs m = Inr ((Some (case logs gid of Some p \<Rightarrow> p\<lparr>Line := Line p @ Line m\<rparr>
                       | None \<Rightarrow> m\<lparr>PLogMetaData := None\<rparr>), True),
      logs(gid := None))"
  by (auto simp: Append_def fragment_of_def Let_def split: option.splits)

lemma Append_seq_nonlast:
  "\<forall>m \<in> set pre. fragment_of gid False m \<Longrightarrow> logs gid = Some p \<Longrightarrow>
   Append_seq logs pre = Inr (replicate (length pre) (None, False),
      logs(gid \<mapsto> p\<lparr>Line := Line p @ concat (map Line pre)\<rparr>))"
proof (induction pre arbitrary: logs p)
  case Nil
  then show ?case by (simp add: fun_upd_idem)
next
  case (Cons m pre)
  have m: "fragment_of gid False m" and pre: "\<forall>m \<in> set pre. fragment_of gid False m"
    using Cons.prems(1) by simp_all
  let ?p = "p\<lparr>Line := Line p @ Line m\<rparr>"
  have step: "Append logs m = Inr ((None, False), logs(gid \<mapsto> ?p))"
    using Append_nonlast [OF m, of logs] Cons.prems(2) by simp
  have "Append_seq (logs(gid \<mapsto> ?p)) pre = Inr (replicate (length pre) (None, False),
      (logs(gid \<mapsto> ?p))(gid \<mapsto> ?p\<lparr>Line := Line ?p @ concat (map Line pre)\<rparr>))"
    by (rule Cons.IH [OF pre]) simp
  then show ?case using step by (auto simp: fun_upd_def)
qed

lemma Append_seq_append:
  "Append_seq logs xs = Inr (rs, logs') \<Longrightarrow>
   Append_seq logs (xs @ ys) =
     (case Append_seq logs' ys of Inl p \<Rightarrow> Inl p | Inr (rs', logs'') \<Rightarrow> Inr (rs @ rs', logs''))"
  by (induction xs arbitrary: logs rs)
     (auto split: sum.splits prod.splits)

lemma Append_seq_fresh_nonlast:
  assumes pre: "\<forall>m \<in> set pre. fragment_of gid False m" and fresh: "logs gid = None" and ne: "pre \<noteq> []"
  shows "Append_seq logs pre = Inr (replicate (length pre) (None, False),
      logs(gid \<mapsto> (hd pre)\<lparr>PLogMetaData := None, Line := concat (map Line pre)\<rparr>))"
proof -
  obtain m ms where pre_eq: "pre = m # ms" using ne by (cases pre) auto
  have m: "fragment_of gid False m" and ms: "\<forall>m \<in> set ms. fragment_of gid False m"
    using pre pre_eq by simp_all
  let ?p = "m\<lparr>PLogMetaData := None\<rparr>"
  have step: "Append logs m = Inr ((None, False), logs(gid \<mapsto> ?p))"
    using Append_nonlast [OF m, of logs] fresh by simp
  have rest: "Append_seq (logs(gid \<mapsto> ?p)) ms = Inr (replicate (length ms) (None, False),
      (logs(gid \<mapsto> ?p))(gid \<mapsto> ?p\<lparr>Line := Line ?p @ concat (map Line ms)\<rparr>))"
    by (rule Append_seq_nonlast [OF ms]) simp
  show ?thesis using step rest by (simp add: pre_eq)
qed

text \<open>
  Claim C4.  Take the fragments of one group in submission order: any number of non-terminal
  fragments \<open>pre\<close> followed by the terminal fragment \<open>l\<close>, submitted to a buffer that holds
  no assembly state for the group yet (the sequence is the whole group).  Every non-terminal
  call returns \<open>(nil, false)\<close>; the terminal call, and only it, returns the assembled record
  with \<open>true\<close>.  Its payload is the concatenation of all payloads in submission order, its
  fragment metadata is nil, its other attributes are those of the first fragment, and the
  group's entry is gone from the buffer afterwards.
\<close>

theorem Append_reassembles_group:
  assumes pre: "\<forall>m \<in> set pre. fragment_of gid False m"
    and lst: "fragment_of gid True l"
    and fresh: "logs gid = None"
  shows "\<exists>r logs'. Append_seq logs (pre @ [l]) =
            Inr (replicate (length pre) (None, False) @ [(Some r, True)], logs')
         \<and> Line r = concat (map Line (pre @ [l]))
         \<and> PLogMetaData r = None
         \<and> Timestamp r = Timestamp (hd (pre @ [l]))
         \<and> logs' gid = None \<and> logs' = logs"
proof (cases "pre = []")
  case True
  have "Append logs l = Inr ((Some (l\<lparr>PLogMetaData := None\<rparr>), True), logs(gid := None))"
    using Append_last [OF lst, of logs] fresh by simp
  moreover have "logs(gid := None) = logs" using fresh by (auto simp: fun_upd_def)
  ultimately show ?thesis using True fresh by simp
next
  case False
  let ?p = "(hd pre)\<lparr>PLogMetaData := None, Line := concat (map Line pre)\<rparr>"
  let ?logs1 = "logs(gid \<mapsto> ?p)"
  have a: "Append_seq logs pre = Inr (replicate (length pre) (None, False), ?logs1)"
    using Append_seq_fresh_nonlast [of pre gid logs] pre fresh False by blast
  have b: "Append ?logs1 l = Inr ((Some (?p\<lparr>Line := Line ?p @ Line l\<rparr>), True), ?logs1(gid := None))"
    using Append_last [OF lst, of ?logs1] by simp
  have c: "?logs1(gid := None) = logs" using fresh by (auto simp: fun_upd_def)
  have "Append_seq logs (pre @ [l]) =
          Inr (replicate (length pre) (None, False) @ [(Some (?p\<lparr>Line := Line ?p @ Line l\<rparr>), True)], logs)"
    using Append_seq_append [OF a, of "[l]"] b c by simp
  then show ?thesis using False fresh by simp
qed

theorem Append_reassembles_group_witness:
  "\<exists>r. Append_seq Map.empty
          [\<lparr>Line = ''ab'', Source = ''stdout'', Timestamp = ''2024-01-01T00:00:00Z'', Attrs = [],
            PLogMetaData = Some \<lparr>Last = False, ID = ''g'', Ordinal = 1\<rparr>\<rparr>,
           \<lparr>Line = ''cd'', Source = ''stdout'', Timestamp = ''2024-01-01T00:00:01Z'', Attrs = [],
            PLogMetaData = Some \<lparr>Last = True, ID = ''g'', Ordinal = 2\<rparr>\<rparr>]
        = Inr ([(None, False), (Some r, True)], Map.empty)
      \<and> Line r = ''abcd'' \<and> PLogMetaData r = None \<and> Timestamp r = ''2024-01-01T00:00:00Z''
      \<and> (Map.empty :: partialLogBuffer) ''g'' = None"
  using Append_reassembles_group [of
     "[\<lparr>Line = ''ab'', Source = ''stdout'', Timestamp = ''2024-01-01T00:00:00Z'', Attrs = [],
            PLogMetaData = Some \<lparr>Last = False, ID = ''g'', Ordinal = 1\<rparr>\<rparr>]" "''g''"
     "\<lparr>Line = ''cd'', Source = ''stdout'', Timestamp = ''2024-01-01T00:00:01Z'', Attrs = [],
            PLogMetaData = Some \<lparr>Last = True, ID = ''g'', Ordinal = 2\<rparr>\<rparr>" Map.empty]
  by (simp add: fragment_of_def)


section \<open>The partial log buffer: panics\<close>

text \<open>
  Claim C9.  \<^verbatim>\<open>Append\<close> panics exactly when the record carries no fragment metadata:
  a record without \<^verbatim>\<open>PLogMetaData\<close> panics with "log must be partial", and a record with
  metadata never panics, whatever the buffer holds.
\<close>

theorem Append_panics_iff_not_partial:
  "(\<exists>p. Append logs log = Inl p) \<longleftrightarrow> PLogMetaData log = None"
  by (auto simp: Append_def Let_def split: option.splits)

section \<open>UTF-8: encoding a decoded rune and decoding an encoded one\<close>

lemma mod_shift: "k < m \<Longrightarrow> (q * m + k) mod m = (k::nat)"
  by simp

lemma div_shift: "k < m \<Longrightarrow> (q * m + k) div m = (q::nat)"
  by simp

lemma byte_split:
  assumes "lo \<le> s" "s < lo + m"
  obtains k :: nat where "s = lo + k" "k < m"
  using assms by (metis add_less_cancel_left le_Suc_ex)

lemma enc1: "s0 < 128 \<Longrightarrow> encoderune (int s0) = [char_of s0]"
  by (simp add: encoderune_def)

lemma enc2:
  assumes "194 \<le> s0" "s0 \<le> 223" "128 \<le> s1" "s1 \<le> 191"
  shows "encoderune (int (s0 mod 32 * 64 + s1 mod 64)) = [char_of s0, char_of (s1::nat)]"
proof -
  obtain k where k: "s0 = 192 + k" "k < 32" using assms byte_split [of 192 s0 32] by auto
  obtain a where a: "s1 = 128 + a" "a < 64" using assms byte_split [of 128 s1 64] by auto
  have m0: "s0 mod 32 = k" using mod_shift [of k 32 6] k by simp
  have m1: "s1 mod 64 = a" using mod_shift [of a 64 2] a by simp
  define i where "i = k * 64 + a"
  have k2: "2 \<le> k" using assms k by simp
  have r: "128 \<le> i" "i \<le> 2047" unfolding i_def using k2 k a by simp_all
  have d: "i div 64 = k" "i mod 64 = a" unfolding i_def using a by simp_all
  show ?thesis unfolding m0 m1 i_def [symmetric]
    using r d k a by (simp add: encoderune_def Let_def)
qed

lemma enc3:
  assumes s0: "224 \<le> s0" "s0 \<le> 239"
    and s1: "128 \<le> s1" "s1 \<le> 191" "s0 = 224 \<longrightarrow> 160 \<le> s1" "s0 = 237 \<longrightarrow> s1 \<le> 159"
    and s2: "128 \<le> s2" "s2 \<le> 191"
  shows "encoderune (int (s0 mod 16 * 4096 + s1 mod 64 * 64 + s2 mod 64))
           = [char_of s0, char_of s1, char_of (s2::nat)]"
proof -
  obtain k where k: "s0 = 224 + k" "k < 16" using s0 byte_split [of 224 s0 16] by auto
  obtain a where a: "s1 = 128 + a" "a < 64" using s1 byte_split [of 128 s1 64] by auto
  obtain b where b: "s2 = 128 + b" "b < 64" using s2 byte_split [of 128 s2 64] by auto
  have m0: "s0 mod 16 = k" using mod_shift [of k 16 14] k by simp
  have m1: "s1 mod 64 = a" using mod_shift [of a 64 2] a by simp
  have m2: "s2 mod 64 = b" using mod_shift [of b 64 2] b by simp
  define i where "i = k * 4096 + a * 64 + b"
  have lo: "k = 0 \<longrightarrow> 32 \<le> a" and hi: "k = 13 \<longrightarrow> a \<le> 31" using s1 k a by auto
  have r1: "2048 \<le> i" unfolding i_def using lo by (cases "k = 0") auto
  have r2: "i \<le> 65535" unfolding i_def using k a b by simp
  have r3: "\<not> (55296 \<le> i \<and> i \<le> 57343)"
  proof -
    consider "k \<le> 12" | "k = 13" | "14 \<le> k" by linarith
    then show ?thesis
    proof cases
      case 1 then show ?thesis unfolding i_def using a b by simp
    next
      case 2 then show ?thesis unfolding i_def using hi b by simp
    next
      case 3 then show ?thesis unfolding i_def by simp
    qed
  qed
  have e0: "i = k * 4096 + (a * 64 + b)" unfolding i_def by simp
  have d0: "i div 4096 = k" unfolding e0 by (rule div_shift) (use a b in simp)
  have e: "i = (k * 64 + a) * 64 + b" unfolding i_def by simp
  have d1: "i div 64 = k * 64 + a" unfolding e by (rule div_shift) (rule b)
  have d1': "i div 64 mod 64 = a" unfolding d1 by (rule mod_shift) (rule a)
  have d2: "i mod 64 = b" unfolding e by (rule mod_shift) (rule b)
  show ?thesis unfolding m0 m1 m2 i_def [symmetric]
    using r1 r2 r3 d0 d1' d2 k a b by (auto simp: encoderune_def encode3_def Let_def)
qed

lemma enc4:
  assumes s0: "240 \<le> s0" "s0 \<le> 244"
    and s1: "128 \<le> s1" "s1 \<le> 191" "s0 = 240 \<longrightarrow> 144 \<le> s1" "s0 = 244 \<longrightarrow> s1 \<le> 143"
    and s2: "128 \<le> s2" "s2 \<le> 191"
    and s3: "128 \<le> s3" "s3 \<le> 191"
  shows "encoderune (int (s0 mod 8 * 262144 + s1 mod 64 * 4096 + s2 mod 64 * 64 + s3 mod 64))
           = [char_of s0, char_of s1, char_of s2, char_of (s3::nat)]"
proof -
  obtain k where k: "s0 = 240 + k" "k < 8" using s0 byte_split [of 240 s0 8] by auto
  obtain a where a: "s1 = 128 + a" "a < 64" using s1 byte_split [of 128 s1 64] by auto
  obtain b where b: "s2 = 128 + b" "b < 64" using s2 byte_split [of 128 s2 64] by auto
  obtain c where c: "s3 = 128 + c" "c < 64" using s3 byte_split [of 128 s3 64] by auto
  have m0: "s0 mod 8 = k" using mod_shift [of k 8 30] k by simp
  have m1: "s1 mod 64 = a" using mod_shift [of a 64 2] a by simp
  have m2: "s2 mod 64 = b" using mod_shift [of b 64 2] b by simp
  have m3: "s3 mod 64 = c" using mod_shift [of c 64 2] c by simp
  define i where "i = k * 262144 + a * 4096 + b * 64 + c"
  have k4: "k \<le> 4" using s0 k by simp
  have lo: "k = 0 \<longrightarrow> 16 \<le> a" and hi: "k = 4 \<longrightarrow> a \<le> 15" using s1 k a by auto
  have r1: "65536 \<le> i" unfolding i_def using lo by (cases "k = 0") auto
  have r2: "i \<le> 1114111"
  proof (cases "k = 4")
    case True then show ?thesis unfolding i_def using hi b c by simp
  next
    case False
    then have "k \<le> 3" using k4 by simp
    then show ?thesis unfolding i_def using a b c by simp
  qed
  have e0: "i = k * 262144 + (a * 4096 + b * 64 + c)" unfolding i_def by simp
  have e1: "i = (k * 64 + a) * 4096 + (b * 64 + c)" unfolding i_def by simp
  have e2: "i = ((k * 64 + a) * 64 + b) * 64 + c" unfolding i_def by simp
  have d0: "i div 262144 = k" unfolding e0 by (rule div_shift) (use a b c in simp)
  have d1: "i div 4096 = k * 64 + a" unfolding e1 by (rule div_shift) (use b c in simp)
  have d1': "i div 4096 mod 64 = a" unfolding d1 by (rule mod_shift) (rule a)
  have d2: "i div 64 = (k * 64 + a) * 64 + b" unfolding e2 by (rule div_shift) (rule c)
  have d2': "i div 64 mod 64 = b" unfolding d2 by (rule mod_shift) (rule b)
  have d3: "i mod 64 = c" unfolding e2 by (rule mod_shift) (rule c)
  show ?thesis unfolding m0 m1 m2 m3 i_def [symmetric]
    using r1 r2 d0 d1' d2' d3 k a b c by (auto simp: encoderune_def Let_def)
qed

lemma first_cases:
  assumes "first s0 = Some (sz, lo, hi)"
  shows "(sz = 2 \<and> 194 \<le> s0 \<and> s0 \<le> 223 \<and> lo = 128 \<and> hi = 191)
       \<or> (sz = 3 \<and> 224 \<le> s0 \<and> s0 \<le> 239 \<and> 128 \<le> lo \<and> hi \<le> 191
            \<and> (s0 = 224 \<longrightarrow> lo = 160) \<and> (s0 = 237 \<longrightarrow> hi = 159))
       \<or> (sz = 4 \<and> 240 \<le> s0 \<and> s0 \<le> 244 \<and> 128 \<le> lo \<and> hi \<le> 191
            \<and> (s0 = 240 \<longrightarrow> lo = 144) \<and> (s0 = 244 \<longrightarrow> hi = 143))"
  using assms by (auto simp: first_def locb_def hicb_def split: if_splits)

lemma take2: "2 \<le> length s \<Longrightarrow> take 2 s = [s ! 0, s ! 1]"
  by (cases s; cases "tl s") auto

lemma take3: "3 \<le> length s \<Longrightarrow> take 3 s = [s ! 0, s ! 1, s ! 2]"
  by (cases s; cases "tl s"; cases "tl (tl s)") auto

lemma take4: "4 \<le> length s \<Longrightarrow> take 4 s = [s ! 0, s ! 1, s ! 2, s ! 3]"
  by (cases s; cases "tl s"; cases "tl (tl s)"; cases "tl (tl (tl s))") auto

lemma encode_decode_rune:
  assumes dec: "DecodeRuneInString s = (r, n)" and ok: "(r, n) \<noteq> (RuneError, 1)" and ne: "s \<noteq> []"
  shows "encoderune r = take n s"
proof -
  obtain c0 t where s: "s = c0 # t" using ne by (cases s) auto
  define s0 :: nat where "s0 = of_char c0"
  have c0: "char_of s0 = c0" "s ! 0 = c0" by (simp_all add: s0_def s)
  show ?thesis
  proof (cases "s0 < 128")
    case True
    then have "r = int s0" "n = 1" using dec by (simp_all add: DecodeRuneInString_def s s0_def)
    then show ?thesis using enc1 [OF True] c0 by (simp add: s)
  next
    case False
    then obtain sz lo hi where f: "first s0 = Some (sz, lo, hi)"
      using dec ok by (cases "first s0") (auto simp: DecodeRuneInString_def s s0_def)
    define s1 :: nat where "s1 = of_char (s ! 1)"
    define s2 :: nat where "s2 = of_char (s ! 2)"
    define s3 :: nat where "s3 = of_char (s ! 3)"
    have cs: "char_of s1 = s ! 1" "char_of s2 = s ! 2" "char_of s3 = s ! 3"
      by (simp_all add: s1_def s2_def s3_def)
    have dec': "(if length s < sz then (RuneError, 1)
                 else if s1 < lo \<or> hi < s1 then (RuneError, 1)
                 else if sz \<le> 2 then (int (s0 mod 32 * 64 + s1 mod 64), 2)
                 else if s2 < locb \<or> hicb < s2 then (RuneError, 1)
                 else if sz \<le> 3 then (int (s0 mod 16 * 4096 + s1 mod 64 * 64 + s2 mod 64), 3)
                 else if s3 < locb \<or> hicb < s3 then (RuneError, 1)
                 else (int (s0 mod 8 * 262144 + s1 mod 64 * 4096 + s2 mod 64 * 64 + s3 mod 64), 4))
                = (r, n)"
      using False f unfolding dec [symmetric]
      by (simp add: DecodeRuneInString_def s s0_def s1_def s2_def s3_def Let_def
               split del: if_split cong: if_cong)
    have len: "sz \<le> length s" and b1: "lo \<le> s1" "s1 \<le> hi"
      using dec' ok by (auto split: if_splits)
    consider (two) "sz = 2" "194 \<le> s0" "s0 \<le> 223" "lo = 128" "hi = 191"
      | (three) "sz = 3" "224 \<le> s0" "s0 \<le> 239" "128 \<le> lo" "hi \<le> 191"
                "s0 = 224 \<longrightarrow> lo = 160" "s0 = 237 \<longrightarrow> hi = 159"
      | (four) "sz = 4" "240 \<le> s0" "s0 \<le> 244" "128 \<le> lo" "hi \<le> 191"
                "s0 = 240 \<longrightarrow> lo = 144" "s0 = 244 \<longrightarrow> hi = 143"
      using first_cases [OF f] by blast
    then show ?thesis
    proof cases
      case two
      have rn: "r = int (s0 mod 32 * 64 + s1 mod 64)" "n = 2"
        using dec' len b1 two by (auto split: if_splits)
      have "encoderune r = [char_of s0, char_of s1]"
        unfolding rn by (rule enc2) (use two b1 in simp_all)
      then show ?thesis using take2 [of s] len two rn c0 cs by simp
    next
      case three
      have b2: "128 \<le> s2" "s2 \<le> 191"
        using dec' ok len b1 three by (auto simp: locb_def hicb_def split: if_splits)
      have rn: "r = int (s0 mod 16 * 4096 + s1 mod 64 * 64 + s2 mod 64)" "n = 3"
        using dec' len b1 b2 three by (auto simp: locb_def hicb_def split: if_splits)
      have "encoderune r = [char_of s0, char_of s1, char_of s2]"
        unfolding rn by (rule enc3) (use three b1 b2 in auto)
      then show ?thesis using take3 [of s] len three rn c0 cs by simp
    next
      case four
      have b2: "128 \<le> s2" "s2 \<le> 191"
        using dec' ok len b1 four by (auto simp: locb_def hicb_def split: if_splits)
      have b3: "128 \<le> s3" "s3 \<le> 191"
        using dec' ok len b1 b2 four by (auto simp: locb_def hicb_def split: if_splits)
      have rn: "r = int (s0 mod 8 * 262144 + s1 mod 64 * 4096 + s2 mod 64 * 64 + s3 mod 64)" "n = 4"
        using dec' len b1 b2 b3 four by (auto simp: locb_def hicb_def split: if_splits)
      have "encoderune r = [char_of s0, char_of s1, char_of s2, char_of s3]"
        unfolding rn by (rule enc4) (use four b1 b2 b3 in auto)
      then show ?thesis using take4 [of s] len four rn c0 cs by simp
    qed
  qed
qed

lemma of_char_char_of: "b < 256 \<Longrightarrow> of_char (char_of b) = (b::nat)"
  by (simp add: of_char_of)

lemma decode_1: "b0 < 128 \<Longrightarrow> DecodeRuneInString (char_of b0 # s) = (int b0, 1)"
  by (simp add: DecodeRuneInString_def of_char_char_of)

lemma decode_2:
  assumes "194 \<le> b0" "b0 \<le> 223" "128 \<le> b1" "b1 \<le> 191"
  shows "DecodeRuneInString (char_of b0 # char_of b1 # s) = (int (b0 mod 32 * 64 + b1 mod 64), 2)"
proof -
  have f: "first b0 = Some (2, locb, hicb)" using assms by (simp add: first_def)
  show ?thesis using assms f
    by (simp add: DecodeRuneInString_def of_char_char_of locb_def hicb_def)
qed

lemma decode_3:
  assumes "224 \<le> b0" "b0 \<le> 239" "128 \<le> b1" "b1 \<le> 191" "128 \<le> b2" "b2 \<le> 191"
    "b0 = 224 \<longrightarrow> 160 \<le> b1" "b0 = 237 \<longrightarrow> b1 \<le> 159"
  shows "DecodeRuneInString (char_of b0 # char_of b1 # char_of b2 # s)
           = (int (b0 mod 16 * 4096 + b1 mod 64 * 64 + b2 mod 64), 3)"
proof -
  have "\<exists>lo hi. first b0 = Some (3, lo, hi) \<and> lo \<le> b1 \<and> b1 \<le> hi"
  proof -
    consider "b0 = 224" | "225 \<le> b0 \<and> b0 \<le> 236" | "b0 = 237" | "238 \<le> b0 \<and> b0 \<le> 239"
      using assms(1,2) by linarith
    then show ?thesis
      using assms by cases (simp_all add: first_def locb_def hicb_def)
  qed
  then obtain lo hi where f: "first b0 = Some (3, lo, hi)" "lo \<le> b1" "b1 \<le> hi"
    by blast
  show ?thesis using assms f
    by (simp add: DecodeRuneInString_def of_char_char_of locb_def hicb_def)
qed

lemma decode_4:
  assumes "240 \<le> b0" "b0 \<le> 244" "128 \<le> b1" "b1 \<le> 191" "128 \<le> b2" "b2 \<le> 191"
    "128 \<le> b3" "b3 \<le> 191"
    "b0 = 240 \<longrightarrow> 144 \<le> b1" "b0 = 244 \<longrightarrow> b1 \<le> 143"
  shows "DecodeRuneInString (char_of b0 # char_of b1 # char_of b2 # char_of b3 # s)
           = (int (b0 mod 8 * 262144 + b1 mod 64 * 4096 + b2 mod 64 * 64 + b3 mod 64), 4)"
proof -
  have "\<exists>lo hi. first b0 = Some (4, lo, hi) \<and> lo \<le> b1 \<and> b1 \<le> hi"
  proof -
    consider "b0 = 240" | "241 \<le> b0 \<and> b0 \<le> 243" | "b0 = 244"
      using assms(1,2) by linarith
    then show ?thesis
      using assms by cases (simp_all add: first_def locb_def hicb_def)
  qed
  then obtain lo hi where f: "first b0 = Some (4, lo, hi)" "lo \<le> b1" "b1 \<le> hi"
    by blast
  show ?thesis using assms f
    by (simp add: DecodeRuneInString_def of_char_char_of locb_def hicb_def)
qed


lemma decode_encode3:
  assumes lo: "2048 \<le> i" and hi: "i \<le> 65535" and sur: "i < 55296 \<or> 57343 < i"
  shows "DecodeRuneInString (encode3 i @ s) = (int i, 3)"
proof -
  define k where "k = i div 4096"
  define a where "a = i div 64 mod 64"
  define b where "b = i mod 64"
  have k: "k < 16" unfolding k_def using hi by (simp add: less_mult_imp_div_less)
  have a: "a < 64" and b: "b < 64" unfolding a_def b_def by simp_all
  have dd: "i div 64 div 64 = k" unfolding k_def by (simp add: div_mult2_eq [symmetric])
  have e1: "i div 64 = k * 64 + a" unfolding a_def dd [symmetric] by simp
  have e: "i = k * 4096 + a * 64 + b"
  proof -
    have "i = i div 64 * 64 + b" unfolding b_def by simp
    then show ?thesis unfolding e1 by simp
  qed
  have lo': "k = 0 \<longrightarrow> 32 \<le> a" using lo b unfolding e by auto
  have hi': "k = 13 \<longrightarrow> a \<le> 31" using sur a b unfolding e by auto
  have m0: "(224 + k) mod 16 = k" using mod_shift [of k 16 14] k by simp
  have m1: "(128 + a) mod 64 = a" using mod_shift [of a 64 2] a by simp
  have m2: "(128 + b) mod 64 = b" using mod_shift [of b 64 2] b by simp
  have "DecodeRuneInString (char_of (224 + k) # char_of (128 + a) # char_of (128 + b) # s)
          = (int ((224 + k) mod 16 * 4096 + (128 + a) mod 64 * 64 + (128 + b) mod 64), 3)"
    by (rule decode_3) (use k a b lo' hi' in auto)
  then show ?thesis
    unfolding m0 m1 m2 e [symmetric] by (simp add: encode3_def k_def a_def b_def)
qed

lemma decode_encode2:
  assumes lo: "128 \<le> i" and hi: "i \<le> 2047"
  shows "DecodeRuneInString (char_of (192 + i div 64) # char_of (128 + i mod 64) # s) = (int i, 2)"
proof -
  define k where "k = i div 64"
  define a where "a = i mod 64"
  have k: "k < 32" unfolding k_def using hi by (simp add: less_mult_imp_div_less)
  have a: "a < 64" unfolding a_def by simp
  have e: "i = k * 64 + a" unfolding k_def a_def by simp
  have k2: "2 \<le> k" using lo a unfolding e by auto
  have m0: "(192 + k) mod 32 = k" using mod_shift [of k 32 6] k by simp
  have m1: "(128 + a) mod 64 = a" using mod_shift [of a 64 2] a by simp
  have "DecodeRuneInString (char_of (192 + k) # char_of (128 + a) # s)
          = (int ((192 + k) mod 32 * 64 + (128 + a) mod 64), 2)"
    by (rule decode_2) (use k k2 a in auto)
  then show ?thesis unfolding m0 m1 e [symmetric] by (simp add: k_def a_def)
qed

lemma decode_encode4:
  assumes lo: "65536 \<le> i" and hi: "i \<le> 1114111"
  shows "DecodeRuneInString (char_of (240 + i div 262144) # char_of (128 + i div 4096 mod 64)
            # char_of (128 + i div 64 mod 64) # char_of (128 + i mod 64) # s) = (int i, 4)"
proof -
  define k where "k = i div 262144"
  define a where "a = i div 4096 mod 64"
  define b where "b = i div 64 mod 64"
  define c where "c = i mod 64"
  have k: "k < 5" unfolding k_def using hi by (simp add: less_mult_imp_div_less)
  have a: "a < 64" and b: "b < 64" and c: "c < 64" unfolding a_def b_def c_def by simp_all
  have d1: "i div 64 div 64 = i div 4096" by (simp add: div_mult2_eq [symmetric])
  have d2: "i div 4096 div 64 = k" unfolding k_def by (simp add: div_mult2_eq [symmetric])
  have e2: "i div 4096 = k * 64 + a" unfolding a_def d2 [symmetric] by simp
  have e1: "i div 64 = (k * 64 + a) * 64 + b" unfolding b_def e2 [symmetric] d1 [symmetric] by simp
  have e: "i = k * 262144 + a * 4096 + b * 64 + c"
  proof -
    have "i = i div 64 * 64 + c" unfolding c_def by simp
    then show ?thesis unfolding e1 by simp
  qed
  have lo': "k = 0 \<longrightarrow> 16 \<le> a" using lo b c unfolding e by auto
  have hi': "k = 4 \<longrightarrow> a \<le> 15" using hi a b c unfolding e by auto
  have m0: "(240 + k) mod 8 = k" using mod_shift [of k 8 30] k by simp
  have m1: "(128 + a) mod 64 = a" using mod_shift [of a 64 2] a by simp
  have m2: "(128 + b) mod 64 = b" using mod_shift [of b 64 2] b by simp
  have m3: "(128 + c) mod 64 = c" using mod_shift [of c 64 2] c by simp
  have "DecodeRuneInString (char_of (240 + k) # char_of (128 + a) # char_of (128 + b)
            # char_of (128 + c) # s)
          = (int ((240 + k) mod 8 * 262144 + (128 + a) mod 64 * 4096 + (128 + b) mod 64 * 64
                    + (128 + c) mod 64), 4)"
    by (rule decode_4) (use k a b c lo' hi' in auto)
  then show ?thesis unfolding m0 m1 m2 m3 e [symmetric] by (simp add: k_def a_def b_def c_def)
qed

lemma decode_encoderune:
  "DecodeRuneInString (encoderune r @ s)
     = ((if ValidRune r then r else RuneError), length (encoderune r))"
proof (cases "ValidRune r")
  case False
  have "encoderune r = encode3 0xFFFD"
    using False by (auto simp: encoderune_def ValidRune_def Let_def)
  moreover have "DecodeRuneInString (encode3 0xFFFD @ s) = (int 0xFFFD, 3)"
    by (rule decode_encode3) simp_all
  ultimately show ?thesis using False by (simp add: RuneError_def encode3_def)
next
  case True
  define i where "i = nat r"
  have r: "r = int i" and v: "i \<le> 1114111" "i < 55296 \<or> 57343 < i"
    using True by (auto simp: ValidRune_def i_def)
  consider "i \<le> 127" | "128 \<le> i" "i \<le> 2047" | "2048 \<le> i" "i \<le> 65535" | "65536 \<le> i"
    by linarith
  then show ?thesis
  proof cases
    case 1
    then show ?thesis using True decode_1 [of i s] by (simp add: encoderune_def r)
  next
    case 2
    then show ?thesis using True decode_encode2 [of i s] by (simp add: encoderune_def r)
  next
    case 3
    then show ?thesis using True v decode_encode3 [of i s]
      by (auto simp: encoderune_def r encode3_def)
  next
    case 4
    then show ?thesis using True v decode_encode4 [of i s] by (auto simp: encoderune_def r)
  qed
qed

subsection \<open>Strings and rune slices\<close>

lemma encoderune_not_Nil: "encoderune r \<noteq> []"
  by (simp add: encoderune_def encode3_def Let_def)

lemma stringtoslicerune_encoderune:
  "stringtoslicerune (encoderune r @ s)
     = (if ValidRune r then r else RuneError) # stringtoslicerune s"
proof -
  obtain c t where e: "encoderune r = c # t"
    using encoderune_not_Nil [of r] by (cases "encoderune r") auto
  have d: "DecodeRuneInString (c # t @ s) = ((if ValidRune r then r else RuneError), Suc (length t))"
    using decode_encoderune [of r s] by (simp add: e)
  show ?thesis by (simp add: e d)
qed

lemma stringtoslicerune_slicerunetostring:
  "stringtoslicerune (slicerunetostring rs @ s)
     = map (\<lambda>r. if ValidRune r then r else RuneError) rs @ stringtoslicerune s"
  by (induction rs) (simp_all add: slicerunetostring_def stringtoslicerune_encoderune)

lemma RuneCountInString_slicerunetostring:
  "RuneCountInString (slicerunetostring rs) = int (length rs)"
  using stringtoslicerune_slicerunetostring [of rs "[]"] by (simp add: RuneCountInString_def)

lemma slicerunetostring_append:
  "slicerunetostring (xs @ ys) = slicerunetostring xs @ slicerunetostring ys"
  by (simp add: slicerunetostring_def)

lemma decode_width_pos: "s \<noteq> [] \<Longrightarrow> 0 < snd (DecodeRuneInString s)"
  by (cases s) (auto simp: DecodeRuneInString_def Let_def split: option.splits)

lemma slicerunetostring_stringtoslicerune:
  "ValidString s \<Longrightarrow> slicerunetostring (stringtoslicerune s) = s"
proof (induction s rule: stringtoslicerune.induct)
  case 1
  show ?case by (simp add: slicerunetostring_def)
next
  case (2 c s)
  obtain r n where d: "DecodeRuneInString (c # s) = (r, n)" by (cases "DecodeRuneInString (c # s)")
  have ok: "(r, n) \<noteq> (RuneError, 1)" and rest: "ValidString (drop (n - 1) s)"
    using "2.prems" by (simp_all add: d)
  have n: "0 < n" using decode_width_pos [of "c # s"] by (simp add: d)
  have enc: "encoderune r = take n (c # s)"
    by (rule encode_decode_rune [OF d ok]) simp
  have "slicerunetostring (stringtoslicerune (drop (n - 1) s)) = drop (n - 1) s"
    using "2.IH" rest by (simp add: d)
  moreover have "drop (n - 1) s = drop n (c # s)" using n by (cases n) simp_all
  ultimately show ?case using enc by (simp add: d slicerunetostring_def)
qed

end
